theory Spec2Isabelle
  imports Main "HOL-Library.Word"
begin

section \<open>Word-of-the-day bot: tables, word generation, unique-word resolver, broadcast\<close>

text \<open>
  The program is one Python script (\<^verbatim>\<open>main.py\<close>) that keeps two PostgreSQL tables,
  asks a text-generation service for a vocabulary word, stores the word if it is new, and
  sends it to every subscribed chat.

  Modelling decisions, all read off the source:
  \<^item> A Python value that is either \<^verbatim>\<open>None\<close> or a \<^verbatim>\<open>str\<close> is a \<open>string option\<close>.
    Text is a list of characters with code points below 256.
  \<^item> A raised exception is the \<open>Inl\<close> branch of a sum; the names are those of the Python
    and PostgreSQL error classes.
  \<^item> The database is a record of the two tables, each a list of rows in insertion order.
    The surrogate key \<^verbatim>\<open>id SERIAL\<close> is never read or written by the script and is left
    out of the rows. \<^verbatim>\<open>created_at\<close> is filled from a clock value handed to the operation.
  \<^item> \<^verbatim>\<open>chat_id\<close> is a \<^verbatim>\<open>BIGINT\<close> column: a 64-bit word.
  \<^item> SQL \<^verbatim>\<open>LOWER\<close> depends on the database locale, so it is a parameter \<open>lower\<close> of
    every function that runs a query using it; \<open>ascii_lower\<close> is the instance used for
    concrete inputs.
  \<^item> The network is an oracle: the outcome of the \<open>k\<close>-th request of an invocation, and
    the outcome of sending a message to a chat.
\<close>

subsection \<open>Errors\<close>

datatype error =
    UniqueViolation
  | NotNullViolation
  | RequestException
  | JSONDecodeError
  | KeyError
  | IndexError
  | TypeError
  | AttributeError
  | BaseException string

subsection \<open>Python string methods used by the parser\<close>

definition whitespace :: "char list" where
  "whitespace =
     [CHR 0x09, CHR 0x0A, CHR 0x0B, CHR 0x0C, CHR 0x0D,
      CHR 0x1C, CHR 0x1D, CHR 0x1E, CHR 0x1F, CHR 0x20, CHR 0x85, CHR 0xA0]"

definition isspace :: "char \<Rightarrow> bool" where
  "isspace c = (c \<in> set whitespace)"

text \<open>\<^verbatim>\<open>s.strip()\<close>: drop leading and trailing whitespace.\<close>

definition str_strip :: "string \<Rightarrow> string" where
  "str_strip s = rev (dropWhile isspace (rev (dropWhile isspace s)))"

text \<open>
  \<^verbatim>\<open>s.split(sep)\<close> for a separator: cut at every occurrence of \<open>sep\<close>, scanning
  from the left without overlap; the result always has at least one part. (Python raises
  \<^verbatim>\<open>ValueError\<close> for an empty separator; the script only passes the two-newline literal, and
  the function below then returns the characters unsplit.)
\<close>

function str_split :: "string \<Rightarrow> string \<Rightarrow> string list" where
  "str_split sep [] = [[]]"
| "str_split sep (c # cs) =
     (if sep \<noteq> [] \<and> take (length sep) (c # cs) = sep
      then [] # str_split sep (drop (length sep) (c # cs))
      else (case str_split sep cs of
              [] \<Rightarrow> [[c]]
            | p # ps \<Rightarrow> (c # p) # ps))"
  by pat_completeness auto
termination
  by (relation "measure (\<lambda>(sep, s). length s)") auto

text \<open>
  \<^verbatim>\<open>s.replace(old, new)\<close>: every occurrence of \<open>old\<close>, from the left without overlap, is
  replaced; an empty \<open>old\<close> matches before every character and at the end.
\<close>

function str_replace :: "string \<Rightarrow> string \<Rightarrow> string \<Rightarrow> string" where
  "str_replace old new [] = (if old = [] then new else [])"
| "str_replace old new (c # cs) =
     (if old = [] then new @ c # str_replace old new cs
      else if take (length old) (c # cs) = old
      then new @ str_replace old new (drop (length old) (c # cs))
      else c # str_replace old new cs)"
  by pat_completeness auto
termination
  by (relation "measure (\<lambda>(old, new, s). length s)") auto

text \<open>\<^verbatim>\<open>parts[i]\<close> for \<open>i \<ge> 0\<close>; out of range raises \<^verbatim>\<open>IndexError\<close>.\<close>

definition index :: "'a list \<Rightarrow> nat \<Rightarrow> error + 'a" where
  "index xs i = (if i < length xs then Inr (xs ! i) else Inl IndexError)"

subsection \<open>The text-generation service\<close>

text \<open>The value \<^verbatim>\<open>response.json()\<close> returns: a JSON document as Python data. A dict is the
  list of its items (keys distinct); a number is kept as its literal.\<close>

datatype json =
    JNull
  | JBool bool
  | JNumber string
  | JString string
  | JArray "json list"
  | JObject "(string \<times> json) list"

text \<open>\<^verbatim>\<open>v[key]\<close> with a string key.\<close>

fun getitem_key :: "json \<Rightarrow> string \<Rightarrow> error + json" where
  "getitem_key (JObject items) key =
     (case map_of items key of None \<Rightarrow> Inl KeyError | Some v \<Rightarrow> Inr v)"
| "getitem_key _ key = Inl TypeError"

text \<open>\<^verbatim>\<open>v[i]\<close> with an integer \<open>i \<ge> 0\<close>. A dict parsed from JSON has string keys only, so
  an integer key is always missing; a string yields its \<open>i\<close>-th character.\<close>

fun getitem_int :: "json \<Rightarrow> nat \<Rightarrow> error + json" where
  "getitem_int (JArray xs) i = index xs i"
| "getitem_int (JObject items) i = Inl KeyError"
| "getitem_int (JString s) i =
     (case index s i of Inl e \<Rightarrow> Inl e | Inr c \<Rightarrow> Inr (JString [c]))"
| "getitem_int _ i = Inl TypeError"

text \<open>\<^verbatim>\<open>v.strip()\<close>: only a \<^verbatim>\<open>str\<close> has the method.\<close>

fun strip_method :: "json \<Rightarrow> error + string" where
  "strip_method (JString s) = Inr (str_strip s)"
| "strip_method _ = Inl AttributeError"

text \<open>What \<^verbatim>\<open>requests.post\<close> hands back: the status code and the outcome of
  \<^verbatim>\<open>response.json()\<close>, which raises when the body is not JSON.\<close>

record response =
  status_code :: int
  body_json :: "error + json"

text \<open>The three values \<^verbatim>\<open>generate_word\<close> returns.\<close>

type_synonym triple = "string option \<times> string option \<times> string option"

definition blank_line :: string where
  "blank_line = [CHR 0x0A, CHR 0x0A]"

text \<open>The body of the \<^verbatim>\<open>try\<close> block (lines 115 to 119).\<close>

definition parse_content :: "string \<Rightarrow> error + triple" where
  "parse_content content =
     (let parts = str_split blank_line content in
      (case index parts 0 of Inl e \<Rightarrow> Inl e | Inr p0 \<Rightarrow>
      (let word = str_strip (str_replace ''Word: '' [] p0) in
      (case index parts 1 of Inl e \<Rightarrow> Inl e | Inr p1 \<Rightarrow>
      (let meaning = str_strip (str_replace ''Meaning: '' [] p1) in
      (case index parts 2 of Inl e \<Rightarrow> Inl e | Inr p2 \<Rightarrow>
      (let example = str_strip (str_replace ''Example: '' [] p2) in
       Inr (Some word, Some meaning, Some example))))))))"

text \<open>\<^verbatim>\<open>response.json()["choices"][0]["message"]["content"].strip()\<close> (line 112), which
  stands outside the \<^verbatim>\<open>try\<close>: its exceptions leave \<^verbatim>\<open>generate_word\<close>.\<close>

definition message_content :: "response \<Rightarrow> error + string" where
  "message_content r =
     (case body_json r of Inl e \<Rightarrow> Inl e | Inr j \<Rightarrow>
     (case getitem_key j ''choices'' of Inl e \<Rightarrow> Inl e | Inr choices \<Rightarrow>
     (case getitem_int choices 0 of Inl e \<Rightarrow> Inl e | Inr choice \<Rightarrow>
     (case getitem_key choice ''message'' of Inl e \<Rightarrow> Inl e | Inr msg \<Rightarrow>
     (case getitem_key msg ''content'' of Inl e \<Rightarrow> Inl e | Inr c \<Rightarrow>
      strip_method c)))))"

text \<open>\<^verbatim>\<open>generate_word\<close>, given the outcome of the request (\<^verbatim>\<open>requests.post\<close> raises when
  the service cannot be reached). The bare \<^verbatim>\<open>except\<close> turns every exception of the
  \<^verbatim>\<open>try\<close> block into the triple of \<^verbatim>\<open>None\<close>s. The line printed on a non-200 status
  goes to standard output only.\<close>

definition generate_word :: "error + response \<Rightarrow> error + triple" where
  "generate_word posted =
     (case posted of Inl e \<Rightarrow> Inl e | Inr r \<Rightarrow>
      if status_code r = 200 then
        (case message_content r of Inl e \<Rightarrow> Inl e | Inr content \<Rightarrow>
         (case parse_content content of
            Inr t \<Rightarrow> Inr t
          | Inl _ \<Rightarrow> Inr (None, None, None)))
      else Inr (None, None, None))"

subsection \<open>The two tables\<close>

type_synonym chat = "64 word"

text \<open>A row of \<^verbatim>\<open>users\<close> and a row of \<^verbatim>\<open>content\<close> (lines 24 to 39).\<close>

record user_row =
  chat_id :: chat
  subscribed :: bool
  user_created_at :: nat

record content_row =
  word :: string
  meaning :: string
  example :: string
  content_created_at :: nat

record db =
  users :: "user_row list"
  content :: "content_row list"

text \<open>The constraints \<^verbatim>\<open>chat_id BIGINT UNIQUE\<close> and \<^verbatim>\<open>word TEXT UNIQUE\<close>. The second one
  compares the stored text as it is: it distinguishes upper from lower case.\<close>

definition users_unique :: "db \<Rightarrow> bool" where
  "users_unique d = distinct (map chat_id (users d))"

definition content_unique :: "db \<Rightarrow> bool" where
  "content_unique d = distinct (map word (content d))"

subsection \<open>User functions\<close>

text \<open>\<^verbatim>\<open>INSERT INTO users (chat_id) VALUES (%s) ON CONFLICT (chat_id) DO UPDATE SET
  subscribed = TRUE\<close>: a new row takes the column defaults; a conflicting row only has its
  flag set.\<close>

definition subscribe_user :: "nat \<Rightarrow> chat \<Rightarrow> db \<Rightarrow> db" where
  "subscribe_user now c d =
     (if c \<in> set (map chat_id (users d))
      then d\<lparr>users := map (\<lambda>r. if chat_id r = c then r\<lparr>subscribed := True\<rparr> else r) (users d)\<rparr>
      else d\<lparr>users := users d @ [\<lparr>chat_id = c, subscribed = True, user_created_at = now\<rparr>]\<rparr>)"

text \<open>\<^verbatim>\<open>UPDATE users SET subscribed = FALSE WHERE chat_id = %s\<close>.\<close>

definition unsubscribe_user :: "chat \<Rightarrow> db \<Rightarrow> db" where
  "unsubscribe_user c d =
     d\<lparr>users := map (\<lambda>r. if chat_id r = c then r\<lparr>subscribed := False\<rparr> else r) (users d)\<rparr>"

text \<open>\<^verbatim>\<open>SELECT chat_id FROM users WHERE subscribed = TRUE\<close>.\<close>

definition get_subscribed_users :: "db \<Rightarrow> chat list" where
  "get_subscribed_users d = map chat_id (filter subscribed (users d))"

subsection \<open>Word functions\<close>

text \<open>\<^verbatim>\<open>SELECT 1 FROM content WHERE LOWER(word) = LOWER(%s)\<close>; \<^verbatim>\<open>fetchone()\<close> is not
  \<^verbatim>\<open>None\<close> when the query has a row.\<close>

definition word_exists :: "(string \<Rightarrow> string) \<Rightarrow> string \<Rightarrow> db \<Rightarrow> bool" where
  "word_exists lower w d = (filter (\<lambda>r. lower (word r) = lower w) (content d) \<noteq> [])"

text \<open>\<^verbatim>\<open>INSERT INTO content (word, meaning, example) VALUES (%s, %s, %s)\<close>. A \<^verbatim>\<open>None\<close>
  argument is SQL \<^verbatim>\<open>NULL\<close> and breaks \<^verbatim>\<open>NOT NULL\<close>, which is checked before the unique
  index; a failed statement leaves the table as it was.\<close>

definition save_content ::
  "nat \<Rightarrow> string option \<Rightarrow> string option \<Rightarrow> string option \<Rightarrow> db \<Rightarrow> error + db" where
  "save_content now w m e d =
     (case (w, m, e) of
        (Some w', Some m', Some e') \<Rightarrow>
          if w' \<in> set (map word (content d)) then Inl UniqueViolation
          else Inr (d\<lparr>content := content d @
                 [\<lparr>word = w', meaning = m', example = e', content_created_at = now\<rparr>]\<rparr>)
      | _ \<Rightarrow> Inl NotNullViolation)"

text \<open>\<^verbatim>\<open>LOWER\<close> in a database whose locale folds the letters A to Z only.\<close>

definition ascii_lower_char :: "char \<Rightarrow> char" where
  "ascii_lower_char c =
     (case map_of (zip ''ABCDEFGHIJKLMNOPQRSTUVWXYZ'' ''abcdefghijklmnopqrstuvwxyz'') c of
        Some l \<Rightarrow> l
      | None \<Rightarrow> c)"

definition ascii_lower :: "string \<Rightarrow> string" where
  "ascii_lower s = map ascii_lower_char s"

subsection \<open>The unique-word resolver\<close>

text \<open>Python truth value of \<^verbatim>\<open>word\<close>: \<^verbatim>\<open>None\<close> and the empty string are false.\<close>

fun truthy :: "string option \<Rightarrow> bool" where
  "truthy None = False"
| "truthy (Some s) = (s \<noteq> [])"

text \<open>The calls an invocation makes, in order, so that the number of generator calls and
  the absence of a check or an insert can be stated.\<close>

datatype event =
    Generate
  | Exists string
  | Save "string option" "string option" "string option"

record resolved =
  outcome :: "error + triple"
  store :: db
  calls :: "event list"

text \<open>
  The loop \<^verbatim>\<open>for _ in range(5)\<close> of \<^verbatim>\<open>get_new_unique_word\<close> with \<open>n\<close> rounds left. \<open>gen k\<close>
  is what the \<open>k\<close>-th call of \<^verbatim>\<open>generate_word\<close> in this invocation does: it raises or
  returns a triple. An exception of \<^verbatim>\<open>generate_word\<close> or \<^verbatim>\<open>save_content\<close> is not caught and
  ends the invocation.
\<close>

fun attempts ::
  "(string \<Rightarrow> string) \<Rightarrow> nat \<Rightarrow> (nat \<Rightarrow> error + triple) \<Rightarrow> nat \<Rightarrow> nat \<Rightarrow> db \<Rightarrow> event list
     \<Rightarrow> resolved" where
  "attempts lower now gen 0 k d tr =
     \<lparr>outcome = Inr (None, None, None), store = d, calls = tr\<rparr>"
| "attempts lower now gen (Suc n) k d tr =
     (case gen k of
        Inl err \<Rightarrow> \<lparr>outcome = Inl err, store = d, calls = tr @ [Generate]\<rparr>
      | Inr (w, m, e) \<Rightarrow>
          if \<not> truthy w then attempts lower now gen n (Suc k) d (tr @ [Generate])
          else if \<not> word_exists lower (the w) d then
            (case save_content now w m e d of
               Inl err \<Rightarrow>
                 \<lparr>outcome = Inl err, store = d,
                  calls = tr @ [Generate, Exists (the w), Save w m e]\<rparr>
             | Inr d' \<Rightarrow>
                 \<lparr>outcome = Inr (w, m, e), store = d',
                  calls = tr @ [Generate, Exists (the w), Save w m e]\<rparr>)
          else attempts lower now gen n (Suc k) d (tr @ [Generate, Exists (the w)]))"

definition get_new_unique_word ::
  "(string \<Rightarrow> string) \<Rightarrow> nat \<Rightarrow> (nat \<Rightarrow> error + triple) \<Rightarrow> db \<Rightarrow> resolved" where
  "get_new_unique_word lower now gen d = attempts lower now gen 5 0 d []"

text \<open>The number of times the generator was called.\<close>

definition generator_calls :: "resolved \<Rightarrow> nat" where
  "generator_calls r = length (filter (\<lambda>ev. ev = Generate) (calls r))"

text \<open>The resolver as the script runs it: the \<open>k\<close>-th call of the generator handles the
  outcome of the \<open>k\<close>-th request.\<close>

definition get_new_unique_word_http ::
  "(string \<Rightarrow> string) \<Rightarrow> nat \<Rightarrow> (nat \<Rightarrow> error + response) \<Rightarrow> db \<Rightarrow> resolved" where
  "get_new_unique_word_http lower now post d =
     get_new_unique_word lower now (\<lambda>k. generate_word (post k)) d"

text \<open>An attempt the loop passes over: the generator returned, and its word is false
  (\<^verbatim>\<open>None\<close> or empty) or already in the store under \<^verbatim>\<open>LOWER\<close>.\<close>

fun skipped :: "(string \<Rightarrow> string) \<Rightarrow> db \<Rightarrow> error + triple \<Rightarrow> bool" where
  "skipped lower d (Inl err) = False"
| "skipped lower d (Inr (w, m, e)) = (\<not> truthy w \<or> word_exists lower (the w) d)"

text \<open>A generator result with an empty word turned into the failure triple.\<close>

fun empty_as_failure :: "error + triple \<Rightarrow> error + triple" where
  "empty_as_failure (Inr (Some [], m, e)) = Inr (None, None, None)"
| "empty_as_failure x = x"

subsection \<open>The broadcast\<close>

text \<open>What \<^verbatim>\<open>await application.bot.send_message(...)\<close> does for one chat: it returns, raises
  an exception derived from \<^verbatim>\<open>Exception\<close> (every delivery error of the bot library is one),
  or raises something else, such as a cancellation, which \<^verbatim>\<open>except Exception\<close> lets
  through.\<close>

datatype sending = Delivered | Raises string | RaisesOther string

text \<open>A value inside an f-string.\<close>

fun format_value :: "string option \<Rightarrow> string" where
  "format_value None = ''None''"
| "format_value (Some s) = s"

text \<open>The message of lines 150 to 158, kept as the template's three arguments.\<close>

datatype message = WordOfTheDay string string string

datatype printed = FailedToGenerate | FailedToSend chat string

record broadcast =
  finished :: "error + unit"
  database :: db
  attempted :: "chat list"
  log :: "printed list"

text \<open>The line one send leaves on standard output.\<close>

fun printed_for :: "chat \<Rightarrow> sending \<Rightarrow> printed list" where
  "printed_for c (Raises x) = [FailedToSend c x]"
| "printed_for c _ = []"

text \<open>The loop of lines 162 to 166 over the chats still to be served.\<close>

fun send_to_all ::
  "(chat \<Rightarrow> message \<Rightarrow> sending) \<Rightarrow> message \<Rightarrow> chat list \<Rightarrow> chat list \<Rightarrow> printed list
     \<Rightarrow> (error + unit) \<times> chat list \<times> printed list" where
  "send_to_all send msg [] served out = (Inr (), served, out)"
| "send_to_all send msg (c # cs) served out =
     (case send c msg of
        Delivered \<Rightarrow> send_to_all send msg cs (served @ [c]) out
      | Raises e \<Rightarrow> send_to_all send msg cs (served @ [c]) (out @ [FailedToSend c e])
      | RaisesOther e \<Rightarrow> (Inl (BaseException e), served @ [c], out))"

definition send_daily_word ::
  "(string \<Rightarrow> string) \<Rightarrow> nat \<Rightarrow> (nat \<Rightarrow> error + triple) \<Rightarrow> (chat \<Rightarrow> message \<Rightarrow> sending) \<Rightarrow> db
     \<Rightarrow> broadcast" where
  "send_daily_word lower now gen send d =
     (let r = get_new_unique_word lower now gen d in
      (case outcome r of
         Inl err \<Rightarrow> \<lparr>finished = Inl err, database = store r, attempted = [], log = []\<rparr>
       | Inr (w, m, e) \<Rightarrow>
           if \<not> truthy w
           then \<lparr>finished = Inr (), database = store r, attempted = [],
                 log = [FailedToGenerate]\<rparr>
           else
             (let msg = WordOfTheDay (format_value w) (format_value m) (format_value e);
                  users = get_subscribed_users (store r)
              in (case send_to_all send msg users [] [] of
                    (fin, served, out) \<Rightarrow>
                      \<lparr>finished = fin, database = store r, attempted = served, log = out\<rparr>))))"

subsection \<open>Replies of the service used as concrete inputs\<close>

text \<open>The JSON document of a chat completion whose message content is \<open>c\<close>.\<close>

definition completion :: "string \<Rightarrow> json" where
  "completion c =
     JObject [(''choices'',
       JArray [JObject [(''message'',
         JObject [(''role'', JString ''assistant''), (''content'', JString c)])]])]"

text \<open>A reply with status 200 that reports an error of the provider instead of a completion,
  and a completion whose content is \<^verbatim>\<open>null\<close>.\<close>

definition error_body :: json where
  "error_body =
     JObject [(''error'',
       JObject [(''message'', JString ''Provider returned error''), (''code'', JNumber ''429'')])]"

definition null_content_body :: json where
  "null_content_body =
     JObject [(''choices'',
       JArray [JObject [(''message'',
         JObject [(''role'', JString ''assistant''), (''content'', JNull)])]])]"

definition two_paragraphs :: string where
  "two_paragraphs = ''Word: lucid'' @ blank_line @ ''Meaning: clear''"

definition three_paragraphs :: string where
  "three_paragraphs =
     ''Word: lucid'' @ blank_line @ ''Meaning: clear'' @ blank_line @
     ''Example: a lucid explanation''"

definition four_paragraphs :: string where
  "four_paragraphs =
     ''Word: lucid'' @ blank_line @ ''Meaning: clear'' @ blank_line @
     ''Example: a lucid explanation'' @ blank_line @ ''Note: a common word''"

subsection \<open>Stores used as concrete inputs\<close>

definition lucid_row :: content_row where
  "lucid_row =
     \<lparr>word = ''lucid'', meaning = ''clear'', example = ''a lucid explanation'',
      content_created_at = 1\<rparr>"

definition lucid_store :: db where
  "lucid_store =
     \<lparr>users =
        [\<lparr>chat_id = 42, subscribed = False, user_created_at = 3\<rparr>,
         \<lparr>chat_id = 7, subscribed = True, user_created_at = 4\<rparr>,
         \<lparr>chat_id = 8, subscribed = True, user_created_at = 6\<rparr>],
      content = [lucid_row]\<rparr>"

text \<open>A transport on which chat 7 has blocked the bot.\<close>

definition blocked_seven :: "chat \<Rightarrow> message \<Rightarrow> sending" where
  "blocked_seven c msg =
     (if c = 7 then Raises ''Forbidden: bot was blocked by the user'' else Delivered)"

subsection \<open>Generator results used as concrete inputs\<close>

text \<open>A stub that returns \<open>Lucid\<close> at every call.\<close>

definition always_lucid :: "nat \<Rightarrow> error + triple" where
  "always_lucid k = Inr (Some ''Lucid'', Some ''clear'', Some ''easy to follow'')"

text \<open>A failure, a duplicate in another casing, an empty word, then a new word.\<close>

definition replies :: "nat \<Rightarrow> error + triple" where
  "replies k =
     (if k = 0 then Inr (None, None, None)
      else if k = 1 then Inr (Some ''LUCID'', Some ''clear'', Some ''easy to follow'')
      else if k = 2 then Inr (Some [], Some ''nothing'', Some ''nothing at all'')
      else Inr (Some ''terse'', Some ''brief'', Some ''a terse reply''))"

definition terse_row :: content_row where
  "terse_row =
     \<lparr>word = ''terse'', meaning = ''brief'', example = ''a terse reply'',
      content_created_at = 5\<rparr>"

section \<open>Word generator\<close>

lemma index_short: "length xs \<le> i \<Longrightarrow> index xs i = Inl IndexError"
  by (simp add: index_def)

lemma parse_content_short:
  assumes "length (str_split blank_line txt) < 3"
  shows "\<exists>err. parse_content txt = Inl err"
proof -
  have "index (str_split blank_line txt) 2 = Inl IndexError"
    using assms by (simp add: index_def)
  then show ?thesis
    by (simp add: parse_content_def Let_def split: sum.split)
qed

lemma parse_content_all_or_nothing:
  "parse_content txt = Inr (w, m, e) \<Longrightarrow> w \<noteq> None \<and> m \<noteq> None \<and> e \<noteq> None"
  by (auto simp: parse_content_def Let_def split: sum.splits)

lemma parse_content_first_three:
  assumes "3 \<le> length (str_split blank_line txt)"
  shows "parse_content txt =
     Inr (Some (str_strip (str_replace ''Word: '' [] (str_split blank_line txt ! 0))),
          Some (str_strip (str_replace ''Meaning: '' [] (str_split blank_line txt ! 1))),
          Some (str_strip (str_replace ''Example: '' [] (str_split blank_line txt ! 2))))"
proof -
  from assms have "str_split blank_line txt \<noteq> []" by (cases "str_split blank_line txt") simp_all
  moreover from assms have "1 < length (str_split blank_line txt)"
    and "2 < length (str_split blank_line txt)" by simp_all
  ultimately show ?thesis
    by (simp add: parse_content_def index_def Let_def)
qed

lemma generate_word_three_paragraphs:
  "generate_word (Inr \<lparr>status_code = 200, body_json = Inr (completion three_paragraphs)\<rparr>) =
     Inr (Some ''lucid'', Some ''clear'', Some ''a lucid explanation'')"
  by (simp add: generate_word_def message_content_def completion_def parse_content_def
      three_paragraphs_def blank_line_def index_def str_strip_def isspace_def whitespace_def)

lemma message_content_completion:
  "message_content \<lparr>status_code = n, body_json = Inr (completion c)\<rparr> = Inr (str_strip c)"
  by (simp add: message_content_def completion_def index_def)

lemma strip_two: "str_strip two_paragraphs = two_paragraphs"
  by (simp add: str_strip_def two_paragraphs_def blank_line_def isspace_def whitespace_def)

lemma split_two:
  "str_split blank_line two_paragraphs = [''Word: lucid'', ''Meaning: clear'']"
  by (simp add: two_paragraphs_def blank_line_def)

text \<open>
  The failures that \<^verbatim>\<open>generate_word\<close> does report: it returns the triple of three \<^verbatim>\<open>None\<close>s
  for every reply with a status other than 200, and for every reply with status 200 from
  which line 112 extracts a message text that splits into fewer than three parts at blank
  lines. Whatever the reply, a returned triple is never partial: all three fields are
  \<^verbatim>\<open>None\<close> or none is.
\<close>

lemma generate_word_sentinel_paths:
  "(status_code r \<noteq> 200 \<longrightarrow> generate_word (Inr r) = Inr (None, None, None))
   \<and> (status_code r' = 200 \<longrightarrow> message_content r' = Inr txt \<longrightarrow>
        length (str_split blank_line txt) < 3 \<longrightarrow>
        generate_word (Inr r') = Inr (None, None, None))
   \<and> (generate_word posted = Inr (w, m, e) \<longrightarrow>
        (w = None \<and> m = None \<and> e = None) \<or> (w \<noteq> None \<and> m \<noteq> None \<and> e \<noteq> None))"
proof (intro conjI impI)
  assume "status_code r \<noteq> 200"
  then show "generate_word (Inr r) = Inr (None, None, None)"
    by (simp add: generate_word_def)
next
  assume "status_code r' = 200" and c: "message_content r' = Inr txt"
    and "length (str_split blank_line txt) < 3"
  then obtain err where "parse_content txt = Inl err"
    using parse_content_short by blast
  with \<open>status_code r' = 200\<close> c show "generate_word (Inr r') = Inr (None, None, None)"
    by (simp add: generate_word_def)
next
  assume g: "generate_word posted = Inr (w, m, e)"
  show "(w = None \<and> m = None \<and> e = None) \<or> (w \<noteq> None \<and> m \<noteq> None \<and> e \<noteq> None)"
  proof (cases "\<exists>txt. parse_content txt = Inr (w, m, e)")
    case True
    then show ?thesis using parse_content_all_or_nothing by blast
  next
    case False
    with g show ?thesis
      by (auto simp: generate_word_def split: sum.splits if_splits)
  qed
qed

text \<open>Two concrete replies: a status 429, and a status 200 whose text has the word and the
  meaning but no example.\<close>

lemma generate_word_sentinel_paths_example:
  "status_code \<lparr>status_code = 429, body_json = Inl JSONDecodeError\<rparr> \<noteq> 200
   \<and> generate_word (Inr \<lparr>status_code = 429, body_json = Inl JSONDecodeError\<rparr>) = Inr (None, None, None)
   \<and> status_code \<lparr>status_code = 200, body_json = Inr (completion two_paragraphs)\<rparr> = 200
   \<and> message_content \<lparr>status_code = 200, body_json = Inr (completion two_paragraphs)\<rparr> = Inr two_paragraphs
   \<and> length (str_split blank_line two_paragraphs) < 3
   \<and> generate_word (Inr \<lparr>status_code = 200, body_json = Inr (completion two_paragraphs)\<rparr>) = Inr (None, None, None)"
  using generate_word_sentinel_paths [of "\<lparr>status_code = 429, body_json = Inl JSONDecodeError\<rparr>"
      "\<lparr>status_code = 200, body_json = Inr (completion two_paragraphs)\<rparr>" two_paragraphs
      "Inr \<lparr>status_code = 200, body_json = Inr (completion two_paragraphs)\<rparr>" None None None]
  by (simp add: message_content_completion strip_two split_two)

text \<open>
  C4 does not hold of the code. The claim covers every reply whose text lacks the three
  parts, but the extraction of the message text (line 112) stands before the \<^verbatim>\<open>try\<close> of
  line 114. For a reply with status 200 that has no \<^verbatim>\<open>choices\<close>, that is not JSON, or whose
  content is \<^verbatim>\<open>null\<close>, the exception leaves \<^verbatim>\<open>generate_word\<close>: it returns nothing, and
  in particular not the triple of \<^verbatim>\<open>None\<close>s.
\<close>

theorem generate_word_raises_without_content:
  "generate_word (Inr \<lparr>status_code = 200, body_json = Inr error_body\<rparr>) = Inl KeyError
   \<and> generate_word (Inr \<lparr>status_code = 200, body_json = Inl JSONDecodeError\<rparr>) =
       Inl JSONDecodeError
   \<and> generate_word (Inr \<lparr>status_code = 200, body_json = Inr null_content_body\<rparr>) =
       Inl AttributeError
   \<and> generate_word (Inr \<lparr>status_code = 200, body_json = Inr error_body\<rparr>) \<noteq>
       Inr (None, None, None)"
  by (simp add: generate_word_def message_content_def error_body_def null_content_body_def
      index_def)

text \<open>
  C9. A reply with four paragraphs, the first three in the expected layout, is parsed: the
  triple comes from the first three paragraphs and the fourth is dropped.
\<close>

theorem generate_word_extra_paragraph:
  "length (str_split blank_line four_paragraphs) = 4
   \<and> generate_word (Inr \<lparr>status_code = 200, body_json = Inr (completion four_paragraphs)\<rparr>) =
       Inr (Some ''lucid'', Some ''clear'', Some ''a lucid explanation'')"
  by (simp add: generate_word_def message_content_def completion_def parse_content_def
      four_paragraphs_def blank_line_def index_def str_strip_def isspace_def whitespace_def)


section \<open>Subscriber registry\<close>

lemma set_flag_chat_ids:
  "map chat_id (map (\<lambda>r. if chat_id r = c then r\<lparr>subscribed := b\<rparr> else r) rows) = map chat_id rows"
  by (induction rows) simp_all

lemma subscribe_user_chat_ids:
  "map chat_id (users (subscribe_user now c d)) =
     (if c \<in> set (map chat_id (users d)) then map chat_id (users d) else map chat_id (users d) @ [c])"
  unfolding subscribe_user_def by (simp add: set_flag_chat_ids del: map_map)

lemma unsubscribe_user_chat_ids:
  "map chat_id (users (unsubscribe_user c d)) = map chat_id (users d)"
  unfolding unsubscribe_user_def by (simp add: set_flag_chat_ids del: map_map)

lemma subscribe_user_unique: "users_unique d \<Longrightarrow> users_unique (subscribe_user now c d)"
  by (simp add: users_unique_def subscribe_user_chat_ids)

lemma unsubscribe_user_unique: "users_unique d \<Longrightarrow> users_unique (unsubscribe_user c d)"
  by (simp add: users_unique_def unsubscribe_user_chat_ids)

lemma filter_distinct_key:
  "distinct (map f xs) \<Longrightarrow> k \<in> set (map f xs) \<Longrightarrow> \<exists>x. filter (\<lambda>r. f r = k) xs = [x]"
proof (induction xs)
  case Nil
  then show ?case by simp
next
  case (Cons a xs)
  show ?case
  proof (cases "f a = k")
    case True
    with Cons.prems have "k \<notin> f ` set xs" by auto
    then have "filter (\<lambda>r. f r = k) xs = []" by (auto simp: filter_empty_conv)
    with True show ?thesis by simp
  next
    case False
    with Cons show ?thesis by auto
  qed
qed

lemma set_flag_created_at:
  "map user_created_at (map (\<lambda>r. if chat_id r = c then r\<lparr>subscribed := b\<rparr> else r) rows) =
     map user_created_at rows"
  by (induction rows) simp_all

lemma set_flag_subscribed:
  "map subscribed (map (\<lambda>r. if chat_id r = c then r\<lparr>subscribed := True\<rparr> else r) rows) =
     map (\<lambda>r. chat_id r = c \<or> subscribed r) rows"
  by (induction rows) simp_all

lemma set_flag_off:
  assumes "x \<in> set (map (\<lambda>r. if chat_id r = c then r\<lparr>subscribed := False\<rparr> else r) rows)"
    and "chat_id x = c"
  shows "\<not> subscribed x"
proof -
  from assms(1) have "x \<in> (\<lambda>r. if chat_id r = c then r\<lparr>subscribed := False\<rparr> else r) ` set rows"
    by (simp only: set_map)
  then obtain r where x: "x = (if chat_id r = c then r\<lparr>subscribed := False\<rparr> else r)"
    by (rule imageE)
  show ?thesis
  proof (cases "chat_id r = c")
    case True
    with x show ?thesis by simp
  next
    case False
    with x have "x = r" by simp
    with False assms(2) show ?thesis by simp
  qed
qed

text \<open>
  C7. In a table that satisfies \<^verbatim>\<open>chat_id UNIQUE\<close>, \<^verbatim>\<open>subscribe_user(c)\<close> followed directly by
  \<^verbatim>\<open>unsubscribe_user(c)\<close> leaves exactly one row for \<open>c\<close>, its flag is false, and
  \<^verbatim>\<open>get_subscribed_users()\<close> does not list \<open>c\<close>.
\<close>

theorem subscribe_then_unsubscribe:
  assumes "users_unique d"
  shows "(\<exists>r. filter (\<lambda>r. chat_id r = c) (users (unsubscribe_user c (subscribe_user now c d))) = [r]
            \<and> subscribed r = False)
         \<and> c \<notin> set (get_subscribed_users (unsubscribe_user c (subscribe_user now c d)))"
proof -
  let ?d = "unsubscribe_user c (subscribe_user now c d)"
  have u: "distinct (map chat_id (users ?d))"
    using assms subscribe_user_unique unsubscribe_user_unique by (simp add: users_unique_def)
  have m: "c \<in> set (map chat_id (users ?d))"
    by (simp only: unsubscribe_user_chat_ids subscribe_user_chat_ids) simp
  from filter_distinct_key [OF u m] obtain r where r: "filter (\<lambda>r. chat_id r = c) (users ?d) = [r]"
    by blast
  have off: "\<not> subscribed x" if "x \<in> set (users ?d)" "chat_id x = c" for x
    using that set_flag_off [of x c "users (subscribe_user now c d)"]
    by (simp add: unsubscribe_user_def)
  have "r \<in> set (filter (\<lambda>r. chat_id r = c) (users ?d))" using r by simp
  then have "r \<in> set (users ?d)" "chat_id r = c" by simp_all
  then have "\<not> subscribed r" by (rule off)
  moreover have "c \<notin> set (get_subscribed_users ?d)"
  proof
    assume "c \<in> set (get_subscribed_users ?d)"
    then obtain x where "x \<in> set (users ?d)" "subscribed x" "chat_id x = c"
      by (auto simp: get_subscribed_users_def)
    with off show False by blast
  qed
  ultimately show ?thesis using r by simp
qed

text \<open>C7 at a concrete table: chat 42 was unsubscribed before, chats 7 and 8 are
  subscribed.\<close>

theorem subscribe_then_unsubscribe_witness:
  "users_unique lucid_store
   \<and> filter (\<lambda>r. chat_id r = 42) (users (unsubscribe_user 42 (subscribe_user 9 42 lucid_store)))
       = [\<lparr>chat_id = 42, subscribed = False, user_created_at = 3\<rparr>]
   \<and> get_subscribed_users (unsubscribe_user 42 (subscribe_user 9 42 lucid_store)) = [7, 8]"
proof -
  have u: "users_unique lucid_store"
    by (simp add: users_unique_def lucid_store_def)
  from subscribe_then_unsubscribe [OF u, of 42 9] u show ?thesis
    by (simp add: lucid_store_def subscribe_user_def unsubscribe_user_def
        get_subscribed_users_def)
qed

text \<open>
  C10. When \<open>c\<close> already has a row, \<^verbatim>\<open>subscribe_user(c)\<close> creates no row and changes no
  \<^verbatim>\<open>chat_id\<close> and no \<^verbatim>\<open>created_at\<close>: the columns of the table are the same lists as before,
  except that the flag of the row of \<open>c\<close> is true; the \<^verbatim>\<open>content\<close> table is untouched.
\<close>

theorem subscribe_again:
  assumes "c \<in> set (map chat_id (users d))"
  shows "map chat_id (users (subscribe_user now c d)) = map chat_id (users d)
       \<and> map user_created_at (users (subscribe_user now c d)) = map user_created_at (users d)
       \<and> map subscribed (users (subscribe_user now c d)) = map (\<lambda>r. chat_id r = c \<or> subscribed r) (users d)
       \<and> content (subscribe_user now c d) = content d"
  using assms unfolding subscribe_user_def
  by (simp add: set_flag_chat_ids set_flag_created_at set_flag_subscribed del: map_map)

text \<open>C10 at a concrete table: chat 42 subscribes again.\<close>

theorem subscribe_again_witness:
  "42 \<in> set (map chat_id (users lucid_store))
   \<and> users (subscribe_user 9 42 lucid_store) =
       [\<lparr>chat_id = 42, subscribed = True, user_created_at = 3\<rparr>,
        \<lparr>chat_id = 7, subscribed = True, user_created_at = 4\<rparr>,
        \<lparr>chat_id = 8, subscribed = True, user_created_at = 6\<rparr>]"
proof -
  have m: "42 \<in> set (map chat_id (users lucid_store))"
    by (simp add: lucid_store_def)
  from subscribe_again [OF m, of 9] m show ?thesis
    by (simp add: lucid_store_def subscribe_user_def)
qed

section \<open>Content store\<close>

text \<open>
  C5 as stated fails: the store holds \<open>lucid\<close>, so \<open>Lucid\<close> exists under case-insensitive
  comparison, yet \<^verbatim>\<open>save_content\<close> inserts \<open>Lucid\<close> as a second row, because the
  \<^verbatim>\<open>UNIQUE\<close> constraint compares the text as stored.
\<close>

theorem save_content_other_casing_counterexample:
  "word_exists ascii_lower ''Lucid'' lucid_store
   \<and> save_content 2 (Some ''Lucid'') (Some ''clear'') (Some ''very clear'') lucid_store =
       Inr (lucid_store\<lparr>content :=
              [lucid_row,
               \<lparr>word = ''Lucid'', meaning = ''clear'', example = ''very clear'',
                content_created_at = 2\<rparr>]\<rparr>)"
  by (simp add: word_exists_def save_content_def lucid_store_def lucid_row_def
      ascii_lower_def ascii_lower_char_def)

text \<open>
  C5 (amended). For every word already stored with exactly the same spelling,
  \<^verbatim>\<open>save_content\<close> with that word fails with the uniqueness violation and inserts nothing.
\<close>

theorem save_content_same_spelling:
  "w \<in> set (map word (content d)) \<Longrightarrow>
     save_content now (Some w) (Some m) (Some e) d = Inl UniqueViolation"
  by (simp add: save_content_def)

text \<open>C5 (amended) at a concrete store: saving \<open>lucid\<close> a second time.\<close>

theorem save_content_same_spelling_witness:
  "''lucid'' \<in> set (map word (content lucid_store))
   \<and> save_content 2 (Some ''lucid'') (Some ''clear'') (Some ''very clear'') lucid_store =
       Inl UniqueViolation"
proof -
  have m: "''lucid'' \<in> set (map word (content lucid_store))"
    by (simp add: lucid_store_def lucid_row_def)
  from save_content_same_spelling [OF m] m show ?thesis
    by simp
qed

section \<open>Unique-word resolver\<close>

lemma save_content_Inr:
  assumes "save_content now w m e d = Inr d'"
  shows "\<exists>w' m' e'. w = Some w' \<and> m = Some m' \<and> e = Some e' \<and> w' \<notin> set (map word (content d))
           \<and> d' = d\<lparr>content := content d @
                 [\<lparr>word = w', meaning = m', example = e', content_created_at = now\<rparr>]\<rparr>"
proof (cases w)
  case None
  with assms show ?thesis by (simp add: save_content_def)
next
  case w: (Some w')
  show ?thesis
  proof (cases m)
    case None
    with assms w show ?thesis by (simp add: save_content_def)
  next
    case m: (Some m')
    show ?thesis
    proof (cases e)
      case None
      with assms w m show ?thesis by (simp add: save_content_def)
    next
      case e: (Some e')
      with assms w m show ?thesis
        by (simp add: save_content_def split: if_splits)
    qed
  qed
qed

lemma attempts_skip:
  assumes "skipped lower d (gen k)"
  shows "\<exists>tr'. attempts lower now gen (Suc n) k d tr = attempts lower now gen n (Suc k) d (tr @ Generate # tr')
           \<and> Generate \<notin> set tr'"
proof (cases "gen k")
  case (Inl err)
  with assms show ?thesis by simp
next
  case (Inr t)
  obtain w m e where t: "t = (w, m, e)" by (cases t)
  show ?thesis
  proof (cases "truthy w")
    case False
    with Inr t have "attempts lower now gen (Suc n) k d tr = attempts lower now gen n (Suc k) d (tr @ Generate # [])"
      by simp
    then show ?thesis by (intro exI [of _ "[]"]) simp
  next
    case True
    with assms Inr t have "word_exists lower (the w) d" by simp
    with True Inr t have "attempts lower now gen (Suc n) k d tr =
        attempts lower now gen n (Suc k) d (tr @ Generate # [Exists (the w)])"
      by simp
    then show ?thesis by (intro exI [of _ "[Exists (the w)]"]) simp
  qed
qed

lemma attempts_exhausted:
  "(\<forall>j<n. skipped lower d (gen (k + j))) \<Longrightarrow>
     outcome (attempts lower now gen n k d tr) = Inr (None, None, None)
     \<and> store (attempts lower now gen n k d tr) = d
     \<and> length (filter (\<lambda>ev. ev = Generate) (calls (attempts lower now gen n k d tr))) =
         length (filter (\<lambda>ev. ev = Generate) tr) + n"
proof (induction n arbitrary: k tr)
  case 0
  show ?case by simp
next
  case (Suc n)
  from Suc.prems have s0: "skipped lower d (gen k)" by (metis add.right_neutral zero_less_Suc)
  from Suc.prems have rest: "\<forall>j<n. skipped lower d (gen (Suc k + j))" by auto
  from s0 attempts_skip [of lower d gen k now n tr] obtain tr' where
    step: "attempts lower now gen (Suc n) k d tr = attempts lower now gen n (Suc k) d (tr @ Generate # tr')"
    and tr': "Generate \<notin> set tr'" by blast
  from tr' have "filter (\<lambda>ev. ev = Generate) tr' = []" by (auto simp: filter_empty_conv)
  then show ?case
    unfolding step using Suc.IH [OF rest, of "tr @ Generate # tr'"] by simp
qed

lemma attempts_stop:
  "j < n \<Longrightarrow> \<forall>i<j. skipped lower d (gen (k + i)) \<Longrightarrow> \<not> skipped lower d (gen (k + j)) \<Longrightarrow>
     outcome (attempts lower now gen n k d tr) =
       (case gen (k + j) of Inl err \<Rightarrow> Inl err
        | Inr (w, m, e) \<Rightarrow> (case save_content now w m e d of Inl err \<Rightarrow> Inl err | Inr d' \<Rightarrow> Inr (w, m, e)))
     \<and> store (attempts lower now gen n k d tr) =
       (case gen (k + j) of Inl err \<Rightarrow> d
        | Inr (w, m, e) \<Rightarrow> (case save_content now w m e d of Inl err \<Rightarrow> d | Inr d' \<Rightarrow> d'))
     \<and> length (filter (\<lambda>ev. ev = Generate) (calls (attempts lower now gen n k d tr))) =
         length (filter (\<lambda>ev. ev = Generate) tr) + j + 1"
proof (induction n arbitrary: k j tr)
  case 0
  then show ?case by simp
next
  case (Suc n)
  show ?case
  proof (cases j)
    case 0
    with Suc.prems have ns: "\<not> skipped lower d (gen k)" by simp
    show ?thesis
    proof (cases "gen k")
      case (Inl err)
      with 0 show ?thesis by simp
    next
      case (Inr t)
      obtain w m e where t: "t = (w, m, e)" by (cases t)
      from ns Inr t have tw: "truthy w" and nx: "\<not> word_exists lower (the w) d" by simp_all
      show ?thesis
      proof (cases "save_content now w m e d")
        case (Inl err)
        with 0 Inr t tw nx show ?thesis by simp
      next
        case sv: (Inr d')
        with 0 Inr t tw nx show ?thesis by simp
      qed
    qed
  next
    case (Suc j')
    with Suc.prems have s0: "skipped lower d (gen k)" by (metis add.right_neutral zero_less_Suc)
    from Suc Suc.prems have j': "j' < n" by simp
    from Suc Suc.prems have rest: "\<forall>i<j'. skipped lower d (gen (Suc k + i))" by auto
    from Suc Suc.prems have stop: "\<not> skipped lower d (gen (Suc k + j'))" by simp
    from s0 attempts_skip [of lower d gen k now n tr] obtain tr' where
      step: "attempts lower now gen (Suc n) k d tr = attempts lower now gen n (Suc k) d (tr @ Generate # tr')"
      and tr': "Generate \<notin> set tr'" by blast
    from tr' have "filter (\<lambda>ev. ev = Generate) tr' = []" by (auto simp: filter_empty_conv)
    then show ?thesis
      unfolding step using Suc.IH [OF j' rest stop, of "tr @ Generate # tr'"] Suc by simp
  qed
qed

lemma first_not_skipped:
  fixes n k :: nat
  assumes "\<not> (\<forall>j<n. skipped lower d (gen (k + j)))"
  shows "\<exists>j<n. (\<forall>i<j. skipped lower d (gen (k + i))) \<and> \<not> skipped lower d (gen (k + j))"
proof -
  from assms have "\<exists>j. j < n \<and> \<not> skipped lower d (gen (k + j))" by blast
  then obtain j where j: "j < n \<and> \<not> skipped lower d (gen (k + j))"
    and least: "\<forall>i<j. \<not> (i < n \<and> \<not> skipped lower d (gen (k + i)))"
    using exists_least_iff [of "\<lambda>j. j < n \<and> \<not> skipped lower d (gen (k + j))"] by blast
  from j least have "\<forall>i<j. skipped lower d (gen (k + i))"
    by (meson less_trans)
  with j show ?thesis by blast
qed


lemma attempts_cases [case_names exhausted raised saved]:
  fixes n k :: nat
  obtains
    (exhausted) "\<forall>j<n. skipped lower d (gen (k + j))"
      "outcome (attempts lower now gen n k d tr) = Inr (None, None, None)"
      "store (attempts lower now gen n k d tr) = d"
      "length (filter (\<lambda>ev. ev = Generate) (calls (attempts lower now gen n k d tr))) =
         length (filter (\<lambda>ev. ev = Generate) tr) + n"
  | (raised) err j where "j < n"
      "outcome (attempts lower now gen n k d tr) = Inl err"
      "store (attempts lower now gen n k d tr) = d"
      "length (filter (\<lambda>ev. ev = Generate) (calls (attempts lower now gen n k d tr))) =
         length (filter (\<lambda>ev. ev = Generate) tr) + j + 1"
  | (saved) j w m e where "j < n" "\<forall>i<j. skipped lower d (gen (k + i))"
      "gen (k + j) = Inr (Some w, Some m, Some e)" "w \<noteq> []" "\<not> word_exists lower w d"
      "outcome (attempts lower now gen n k d tr) = Inr (Some w, Some m, Some e)"
      "store (attempts lower now gen n k d tr) =
         d\<lparr>content := content d @
            [\<lparr>word = w, meaning = m, example = e, content_created_at = now\<rparr>]\<rparr>"
      "length (filter (\<lambda>ev. ev = Generate) (calls (attempts lower now gen n k d tr))) =
         length (filter (\<lambda>ev. ev = Generate) tr) + j + 1"
proof (cases "\<forall>j<n. skipped lower d (gen (k + j))")
  case True
  with attempts_exhausted [of n lower d gen k now tr] show ?thesis by (intro exhausted) simp_all
next
  case False
  from first_not_skipped [OF False] obtain j where j: "j < n"
    and before: "\<forall>i<j. skipped lower d (gen (k + i))"
    and stop: "\<not> skipped lower d (gen (k + j))" by blast
  note st = attempts_stop [OF j before stop, of now tr]
  show ?thesis
  proof (cases "gen (k + j)")
    case (Inl err)
    with st j show ?thesis by (intro raised [of j err]) simp_all
  next
    case (Inr t)
    obtain w m e where t: "t = (w, m, e)" by (cases t)
    from stop Inr t have tw: "truthy w" and nx: "\<not> word_exists lower (the w) d" by simp_all
    show ?thesis
    proof (cases "save_content now w m e d")
      case (Inl err)
      with st j Inr t show ?thesis by (intro raised [of j err]) simp_all
    next
      case sv: (Inr d')
      from save_content_Inr [OF sv] obtain w' m' e' where
        w: "w = Some w'" and m: "m = Some m'" and e: "e = Some e'"
        and d': "d' = d\<lparr>content := content d @
            [\<lparr>word = w', meaning = m', example = e', content_created_at = now\<rparr>]\<rparr>"
        by blast
      from tw w have ne: "w' \<noteq> []" by simp
      from nx w have nx': "\<not> word_exists lower w' d" by simp
      from st Inr t sv w m e d' have
        "outcome (attempts lower now gen n k d tr) = Inr (Some w', Some m', Some e')"
        "store (attempts lower now gen n k d tr) =
           d\<lparr>content := content d @
              [\<lparr>word = w', meaning = m', example = e', content_created_at = now\<rparr>]\<rparr>"
        "length (filter (\<lambda>ev. ev = Generate) (calls (attempts lower now gen n k d tr))) =
           length (filter (\<lambda>ev. ev = Generate) tr) + j + 1"
        by simp_all
      moreover from Inr t w m e have "gen (k + j) = Inr (Some w', Some m', Some e')" by simp
      ultimately show ?thesis using j before ne nx' by (intro saved [of j w' m' e'])
    qed
  qed
qed

text \<open>Both readings of word uniqueness survive an invocation: the \<^verbatim>\<open>UNIQUE\<close> constraint of
  the column, and distinctness under \<^verbatim>\<open>LOWER\<close>.\<close>

lemma save_content_unique:
  assumes "content_unique d" and "save_content now w m e d = Inr d'"
  shows "content_unique d'"
proof -
  from save_content_Inr [OF assms(2)] obtain w' m' e' where
    "w' \<notin> set (map word (content d))"
    "d' = d\<lparr>content := content d @
        [\<lparr>word = w', meaning = m', example = e', content_created_at = now\<rparr>]\<rparr>"
    by blast
  with assms(1) show ?thesis by (simp add: content_unique_def)
qed

lemma word_exists_iff:
  "word_exists lower w d \<longleftrightarrow> lower w \<in> set (map (\<lambda>r. lower (word r)) (content d))"
proof
  assume "word_exists lower w d"
  then obtain r where "r \<in> set (content d)" "lower (word r) = lower w"
    by (auto simp: word_exists_def filter_empty_conv)
  then have "lower w \<in> (\<lambda>r. lower (word r)) ` set (content d)" by (metis imageI)
  then show "lower w \<in> set (map (\<lambda>r. lower (word r)) (content d))" by simp
next
  assume "lower w \<in> set (map (\<lambda>r. lower (word r)) (content d))"
  then obtain r where "r \<in> set (content d)" "lower w = lower (word r)" by auto
  then show "word_exists lower w d" by (auto simp: word_exists_def filter_empty_conv)
qed

lemma resolver_keeps_lower_unique:
  assumes "distinct (map (\<lambda>r. lower (word r)) (content d))"
  shows "distinct (map (\<lambda>r. lower (word r)) (content (store (get_new_unique_word lower now gen d))))"
proof (cases rule: attempts_cases [of 5 lower d gen 0 now "[]"])
  case exhausted
  with assms show ?thesis by (simp add: get_new_unique_word_def)
next
  case (raised err j)
  with assms show ?thesis by (simp add: get_new_unique_word_def)
next
  case (saved j w m e)
  from saved(5) have "lower w \<notin> set (map (\<lambda>r. lower (word r)) (content d))"
    by (simp only: word_exists_iff not_False_eq_True)
  with assms saved(7) show ?thesis by (simp add: get_new_unique_word_def)
qed

lemma resolver_keeps_unique:
  assumes "content_unique d"
  shows "content_unique (store (get_new_unique_word lower now gen d))"
proof (cases rule: attempts_cases [of 5 lower d gen 0 now "[]"])
  case exhausted
  with assms show ?thesis by (simp add: get_new_unique_word_def)
next
  case (raised err j)
  with assms show ?thesis by (simp add: get_new_unique_word_def)
next
  case (saved j w m e)
  from saved(5) have "lower w \<notin> set (map (\<lambda>r. lower (word r)) (content d))"
    by (simp only: word_exists_iff not_False_eq_True)
  then have "w \<notin> set (map word (content d))" by auto
  with assms saved(7) show ?thesis by (simp add: get_new_unique_word_def content_unique_def)
qed

lemma filter_lower_append_fresh:
  assumes "word_exists lower w0 d" and "\<not> word_exists lower w d"
  shows "filter (\<lambda>r. lower (word r) = lower w0)
           (content d @ [\<lparr>word = w, meaning = m, example = e, content_created_at = now\<rparr>]) =
         filter (\<lambda>r. lower (word r) = lower w0) (content d)"
proof -
  have "lower w \<noteq> lower w0"
  proof
    assume "lower w = lower w0"
    then have "word_exists lower w d = word_exists lower w0 d" by (simp add: word_exists_def)
    with assms show False by simp
  qed
  then show ?thesis by simp
qed

text \<open>
  C1. For every word \<open>w0\<close> that the store already holds under \<^verbatim>\<open>LOWER\<close>, whatever the
  generator returns at each call, the entries that equal \<open>w0\<close> under \<^verbatim>\<open>LOWER\<close> are the
  same after \<^verbatim>\<open>get_new_unique_word\<close> as before: no second one is persisted.
\<close>

theorem resolver_no_second_entry:
  assumes "word_exists lower w0 d"
  shows "filter (\<lambda>r. lower (word r) = lower w0)
           (content (store (get_new_unique_word lower now gen d))) =
         filter (\<lambda>r. lower (word r) = lower w0) (content d)"
proof (cases rule: attempts_cases [of 5 lower d gen 0 now "[]"])
  case exhausted
  then show ?thesis by (simp add: get_new_unique_word_def)
next
  case (raised err j)
  then show ?thesis by (simp add: get_new_unique_word_def)
next
  case (saved j w m e)
  with filter_lower_append_fresh [OF assms saved(5)] show ?thesis
    by (simp add: get_new_unique_word_def)
qed


text \<open>C1 at a concrete store: \<open>lucid\<close> is stored, the generator offers \<open>LUCID\<close> and then
  \<open>terse\<close>; the entries equal to \<open>Lucid\<close> are still the one row.\<close>

theorem resolver_no_second_entry_witness:
  "word_exists ascii_lower ''Lucid'' lucid_store
   \<and> filter (\<lambda>r. ascii_lower (word r) = ascii_lower ''Lucid'')
         (content (store (get_new_unique_word ascii_lower 5 replies lucid_store))) = [lucid_row]"
proof -
  have x: "word_exists ascii_lower ''Lucid'' lucid_store"
    by (simp add: word_exists_def lucid_store_def lucid_row_def ascii_lower_def
        ascii_lower_char_def)
  from resolver_no_second_entry [OF x, of 5 replies] x show ?thesis
    by (simp add: lucid_store_def lucid_row_def ascii_lower_def ascii_lower_char_def)
qed

text \<open>
  C2. An invocation calls the generator at most five times. When each of the five attempts
  returns no word or a word already in the store, it calls the generator exactly five times
  and returns the triple of \<^verbatim>\<open>None\<close>s; so it does with a stub that returns the same stored
  word at every call.
\<close>

theorem resolver_at_most_five:
  "generator_calls (get_new_unique_word lower now gen d) \<le> 5
   \<and> ((\<forall>k<5. skipped lower d (gen k)) \<longrightarrow>
        generator_calls (get_new_unique_word lower now gen d) = 5
        \<and> outcome (get_new_unique_word lower now gen d) = Inr (None, None, None))
   \<and> (word_exists lower w d \<longrightarrow>
        generator_calls (get_new_unique_word lower now (\<lambda>k. Inr (Some w, m, e)) d) = 5
        \<and> outcome (get_new_unique_word lower now (\<lambda>k. Inr (Some w, m, e)) d) =
            Inr (None, None, None))"
proof (intro conjI impI)
  show "generator_calls (get_new_unique_word lower now gen d) \<le> 5"
    unfolding get_new_unique_word_def generator_calls_def
    by (cases rule: attempts_cases [of 5 lower d gen 0 now "[]"]) simp_all
next
  assume "\<forall>k<5. skipped lower d (gen k)"
  then have a: "\<forall>j<5. skipped lower d (gen (0 + j))" by simp
  from a attempts_exhausted [of 5 lower d gen 0 now "[]"]
  show "generator_calls (get_new_unique_word lower now gen d) = 5"
    and "outcome (get_new_unique_word lower now gen d) = Inr (None, None, None)"
    by (simp_all add: get_new_unique_word_def generator_calls_def)
next
  assume "word_exists lower w d"
  then have a: "\<forall>j<(5::nat). skipped lower d ((\<lambda>k::nat. Inr (Some w, m, e)) (0 + j))" by simp
  from a attempts_exhausted [of 5 lower d "\<lambda>k. Inr (Some w, m, e)" 0 now "[]"]
  show "generator_calls (get_new_unique_word lower now (\<lambda>k. Inr (Some w, m, e)) d) = 5"
    and "outcome (get_new_unique_word lower now (\<lambda>k. Inr (Some w, m, e)) d) =
            Inr (None, None, None)"
    by (simp_all add: get_new_unique_word_def generator_calls_def)
qed


text \<open>C2 at a concrete store, with the stub that always returns \<open>Lucid\<close>.\<close>

theorem resolver_at_most_five_witness:
  "word_exists ascii_lower ''Lucid'' lucid_store
   \<and> always_lucid 0 = Inr (Some ''Lucid'', Some ''clear'', Some ''easy to follow'')
   \<and> always_lucid 4 = Inr (Some ''Lucid'', Some ''clear'', Some ''easy to follow'')
   \<and> generator_calls (get_new_unique_word ascii_lower 5 always_lucid lucid_store) = 5
   \<and> outcome (get_new_unique_word ascii_lower 5 always_lucid lucid_store) =
       Inr (None, None, None)"
proof -
  have x: "word_exists ascii_lower ''Lucid'' lucid_store"
    by (simp add: word_exists_def lucid_store_def lucid_row_def ascii_lower_def
        ascii_lower_char_def)
  then have s: "\<forall>k<5. skipped ascii_lower lucid_store (always_lucid k)"
    by (simp add: always_lucid_def)
  from resolver_at_most_five [of ascii_lower 5 always_lucid lucid_store "''Lucid''"] x s
  show ?thesis by (simp add: always_lucid_def)
qed

text \<open>Two runs of the resolver on the concrete store, evaluated.\<close>

lemma resolver_replies:
  "get_new_unique_word ascii_lower 5 replies lucid_store =
     \<lparr>outcome = Inr (Some ''terse'', Some ''brief'', Some ''a terse reply''),
      store = lucid_store\<lparr>content := [lucid_row, terse_row]\<rparr>,
      calls = [Generate, Generate, Exists ''LUCID'', Generate, Generate, Exists ''terse'',
               Save (Some ''terse'') (Some ''brief'') (Some ''a terse reply'')]\<rparr>"
  by (simp add: get_new_unique_word_def eval_nat_numeral replies_def word_exists_def
      save_content_def lucid_store_def lucid_row_def terse_row_def ascii_lower_def
      ascii_lower_char_def)

lemma resolver_always_lucid:
  "get_new_unique_word ascii_lower 5 always_lucid lucid_store =
     \<lparr>outcome = Inr (None, None, None), store = lucid_store,
      calls = [Generate, Exists ''Lucid'', Generate, Exists ''Lucid'', Generate, Exists ''Lucid'',
               Generate, Exists ''Lucid'', Generate, Exists ''Lucid'']\<rparr>"
  by (simp add: get_new_unique_word_def eval_nat_numeral always_lucid_def word_exists_def
      lucid_store_def lucid_row_def ascii_lower_def ascii_lower_char_def)

text \<open>Such a reply at the first request ends the invocation after one call of the
  generator: the loop does not catch the exception and makes no further attempt.\<close>

lemma resolver_http_raises:
  "get_new_unique_word_http ascii_lower 1
     (\<lambda>k. Inr \<lparr>status_code = 200, body_json = Inr error_body\<rparr>) lucid_store =
   \<lparr>outcome = Inl KeyError, store = lucid_store, calls = [Generate]\<rparr>"
  by (simp add: get_new_unique_word_http_def get_new_unique_word_def eval_nat_numeral
      generate_word_def message_content_def error_body_def)

text \<open>A complete scenario, starting from the replies of the service: on an empty store
  the word \<open>lucid\<close> is persisted and returned; on the store that holds it, the same reply at
  every call exhausts the five attempts.\<close>

lemma scenario_lucid_first:
  "get_new_unique_word_http ascii_lower 1
     (\<lambda>k. Inr \<lparr>status_code = 200, body_json = Inr (completion three_paragraphs)\<rparr>)
     \<lparr>users = [], content = []\<rparr> =
   \<lparr>outcome = Inr (Some ''lucid'', Some ''clear'', Some ''a lucid explanation''),
    store = \<lparr>users = [], content = [lucid_row]\<rparr>,
    calls = [Generate, Exists ''lucid'',
             Save (Some ''lucid'') (Some ''clear'') (Some ''a lucid explanation'')]\<rparr>"
  by (simp add: get_new_unique_word_http_def get_new_unique_word_def eval_nat_numeral
      generate_word_three_paragraphs word_exists_def save_content_def lucid_row_def)

lemma scenario_lucid_second:
  "get_new_unique_word_http ascii_lower 2
     (\<lambda>k. Inr \<lparr>status_code = 200, body_json = Inr (completion three_paragraphs)\<rparr>)
     \<lparr>users = [], content = [lucid_row]\<rparr> =
   \<lparr>outcome = Inr (None, None, None),
    store = \<lparr>users = [], content = [lucid_row]\<rparr>,
    calls = [Generate, Exists ''lucid'', Generate, Exists ''lucid'', Generate, Exists ''lucid'',
             Generate, Exists ''lucid'', Generate, Exists ''lucid'']\<rparr>"
  by (simp add: get_new_unique_word_http_def get_new_unique_word_def eval_nat_numeral
      generate_word_three_paragraphs word_exists_def save_content_def lucid_row_def)


text \<open>
  C3. When \<^verbatim>\<open>get_new_unique_word\<close> returns the triple of \<^verbatim>\<open>None\<close>s, the database is what it was.
  When it returns a triple with a true word, all three fields are strings, the database is
  the old one with exactly one row appended to \<^verbatim>\<open>content\<close> (that triple, stamped with the
  current time), and the triple is the result of the first attempt that was not passed over:
  the generator was called once per attempt up to that one and no more. It returns no other
  triple.
\<close>

theorem resolver_persists_one_or_none:
  "(outcome (get_new_unique_word lower now gen d) = Inr (None, None, None) \<longrightarrow>
      store (get_new_unique_word lower now gen d) = d)
   \<and> (outcome (get_new_unique_word lower now gen d) = Inr (w, m, e) \<longrightarrow> truthy w \<longrightarrow>
      (\<exists>w' m' e'. w = Some w' \<and> m = Some m' \<and> e = Some e'
         \<and> store (get_new_unique_word lower now gen d) =
             d\<lparr>content := content d @
                [\<lparr>word = w', meaning = m', example = e', content_created_at = now\<rparr>]\<rparr>
         \<and> (\<exists>j<5. (\<forall>i<j. skipped lower d (gen i)) \<and> gen j = Inr (w, m, e)
                \<and> \<not> word_exists lower w' d
                \<and> generator_calls (get_new_unique_word lower now gen d) = j + 1)))
   \<and> (outcome (get_new_unique_word lower now gen d) = Inr (w, m, e) \<longrightarrow> \<not> truthy w \<longrightarrow>
      (w, m, e) = (None, None, None))"
proof (cases rule: attempts_cases [of 5 lower d gen 0 now "[]"])
  case exhausted
  then show ?thesis by (auto simp add: get_new_unique_word_def)
next
  case (raised err j)
  then show ?thesis by (simp add: get_new_unique_word_def)
next
  case (saved j w' m' e')
  from saved(3) have g: "gen j = Inr (Some w', Some m', Some e')" by simp
  from saved(2) have b: "\<forall>i<j. skipped lower d (gen i)" by simp
  from saved(8) have c: "generator_calls (get_new_unique_word lower now gen d) = j + 1"
    by (simp add: get_new_unique_word_def generator_calls_def)
  have o: "outcome (get_new_unique_word lower now gen d) = Inr (Some w', Some m', Some e')"
    using saved(6) by (simp add: get_new_unique_word_def)
  have st: "store (get_new_unique_word lower now gen d) =
             d\<lparr>content := content d @
                [\<lparr>word = w', meaning = m', example = e', content_created_at = now\<rparr>]\<rparr>"
    using saved(7) by (simp add: get_new_unique_word_def)
  show ?thesis
  proof (intro conjI impI)
    assume "outcome (get_new_unique_word lower now gen d) = Inr (None, None, None)"
    with o show "store (get_new_unique_word lower now gen d) = d" by simp
  next
    assume "outcome (get_new_unique_word lower now gen d) = Inr (w, m, e)"
    with o have eq: "w = Some w'" "m = Some m'" "e = Some e'" by simp_all
    from saved(1) b g saved(5) c eq
    have "\<exists>j<5. (\<forall>i<j. skipped lower d (gen i)) \<and> gen j = Inr (w, m, e)
                \<and> \<not> word_exists lower w' d
                \<and> generator_calls (get_new_unique_word lower now gen d) = j + 1"
      by blast
    with eq st show "\<exists>w' m' e'. w = Some w' \<and> m = Some m' \<and> e = Some e'
         \<and> store (get_new_unique_word lower now gen d) =
             d\<lparr>content := content d @
                [\<lparr>word = w', meaning = m', example = e', content_created_at = now\<rparr>]\<rparr>
         \<and> (\<exists>j<5. (\<forall>i<j. skipped lower d (gen i)) \<and> gen j = Inr (w, m, e)
                \<and> \<not> word_exists lower w' d
                \<and> generator_calls (get_new_unique_word lower now gen d) = j + 1)"
      by blast
  next
    assume "outcome (get_new_unique_word lower now gen d) = Inr (w, m, e)" and "\<not> truthy w"
    with o saved(4) show "(w, m, e) = (None, None, None)" by simp
  qed
qed

text \<open>C3 at the two concrete runs: the stub that always returns \<open>Lucid\<close> leaves the store
  alone; the generator that offers \<open>terse\<close> at its fourth call adds that one row after four
  calls.\<close>

theorem resolver_persists_one_or_none_witness:
  "outcome (get_new_unique_word ascii_lower 5 always_lucid lucid_store) = Inr (None, None, None)
   \<and> store (get_new_unique_word ascii_lower 5 always_lucid lucid_store) = lucid_store
   \<and> outcome (get_new_unique_word ascii_lower 5 replies lucid_store) =
       Inr (Some ''terse'', Some ''brief'', Some ''a terse reply'')
   \<and> truthy (Some ''terse'')
   \<and> store (get_new_unique_word ascii_lower 5 replies lucid_store) =
       lucid_store\<lparr>content := [lucid_row, terse_row]\<rparr>
   \<and> generator_calls (get_new_unique_word ascii_lower 5 replies lucid_store) = 4"
  using resolver_persists_one_or_none [of ascii_lower 5 always_lucid lucid_store]
    resolver_persists_one_or_none [of ascii_lower 5 replies lucid_store
      "Some ''terse''" "Some ''brief''" "Some ''a terse reply''"]
  by (simp add: resolver_replies resolver_always_lucid generator_calls_def)

lemma attempts_empty_as_failure:
  "attempts lower now (\<lambda>k. empty_as_failure (gen k)) n k d tr = attempts lower now gen n k d tr"
proof (induction n arbitrary: k tr)
  case 0
  show ?case by simp
next
  case (Suc n)
  show ?case
  proof (cases "gen k")
    case (Inl err)
    then show ?thesis by simp
  next
    case (Inr t)
    obtain w m e where t: "t = (w, m, e)" by (cases t)
    show ?thesis
    proof (cases w)
      case None
      with Inr t Suc.IH show ?thesis by simp
    next
      case (Some s)
      show ?thesis
      proof (cases s)
        case Nil
        with Inr t Some Suc.IH show ?thesis by simp
      next
        case (Cons c cs)
        with Inr t Some Suc.IH show ?thesis by simp
      qed
    qed
  qed
qed

lemma attempts_calls_nonempty:
  assumes "Exists [] \<notin> set tr" and "\<forall>m e. Save (Some []) m e \<notin> set tr"
  shows "Exists [] \<notin> set (calls (attempts lower now gen n k d tr))
       \<and> (\<forall>m e. Save (Some []) m e \<notin> set (calls (attempts lower now gen n k d tr)))"
  using assms
proof (induction n arbitrary: k tr)
  case 0
  then show ?case by simp
next
  case (Suc n)
  show ?case
  proof (cases "gen k")
    case (Inl err)
    with Suc.prems show ?thesis by simp
  next
    case (Inr t)
    obtain w m e where t: "t = (w, m, e)" by (cases t)
    show ?thesis
    proof (cases "truthy w")
      case False
      with Inr t Suc.IH [of "tr @ [Generate]" "Suc k"] Suc.prems show ?thesis by simp
    next
      case True
      then obtain s where s: "w = Some s" "s \<noteq> []" by (cases w) simp_all
      show ?thesis
      proof (cases "word_exists lower s d")
        case True
        with Inr t s Suc.IH [of "tr @ [Generate, Exists s]" "Suc k"] Suc.prems
        show ?thesis by simp
      next
        case False
        with Inr t s Suc.prems show ?thesis
          by (cases "save_content now (Some s) m e d") simp_all
      qed
    qed
  qed
qed

text \<open>
  C8. An attempt whose word is the empty string is handled as an attempt that returned the
  triple of \<^verbatim>\<open>None\<close>s: replacing every such result by that triple changes nothing in what
  the invocation returns, stores or calls. No invocation checks the empty word for existence
  or saves it, and the rows with an empty word are the same after as before.
\<close>

theorem resolver_empty_word:
  "get_new_unique_word lower now gen d =
     get_new_unique_word lower now (\<lambda>k. empty_as_failure (gen k)) d
   \<and> Exists [] \<notin> set (calls (get_new_unique_word lower now gen d))
   \<and> (\<forall>m e. Save (Some []) m e \<notin> set (calls (get_new_unique_word lower now gen d)))
   \<and> filter (\<lambda>r. word r = []) (content (store (get_new_unique_word lower now gen d))) =
       filter (\<lambda>r. word r = []) (content d)"
proof -
  have "filter (\<lambda>r. word r = []) (content (store (get_new_unique_word lower now gen d))) =
       filter (\<lambda>r. word r = []) (content d)"
  proof (cases rule: attempts_cases [of 5 lower d gen 0 now "[]"])
    case exhausted
    then show ?thesis by (simp add: get_new_unique_word_def)
  next
    case (raised err j)
    then show ?thesis by (simp add: get_new_unique_word_def)
  next
    case (saved j w m e)
    then show ?thesis by (simp add: get_new_unique_word_def)
  qed
  moreover have "Exists [] \<notin> set (calls (get_new_unique_word lower now gen d))
       \<and> (\<forall>m e. Save (Some []) m e \<notin> set (calls (get_new_unique_word lower now gen d)))"
    unfolding get_new_unique_word_def by (rule attempts_calls_nonempty) simp_all
  ultimately show ?thesis
    by (simp add: get_new_unique_word_def attempts_empty_as_failure)
qed


text \<open>C8 at the concrete run whose third generator result has an empty word: that attempt
  only calls the generator.\<close>

theorem resolver_empty_word_witness:
  "replies 2 = Inr (Some [], Some ''nothing'', Some ''nothing at all'')
   \<and> get_new_unique_word ascii_lower 5 replies lucid_store =
       get_new_unique_word ascii_lower 5 (\<lambda>k. empty_as_failure (replies k)) lucid_store
   \<and> calls (get_new_unique_word ascii_lower 5 replies lucid_store) =
       [Generate, Generate, Exists ''LUCID'', Generate, Generate, Exists ''terse'',
        Save (Some ''terse'') (Some ''brief'') (Some ''a terse reply'')]
   \<and> content (store (get_new_unique_word ascii_lower 5 replies lucid_store)) =
       [lucid_row, terse_row]"
proof -
  have r2: "replies 2 = Inr (Some [], Some ''nothing'', Some ''nothing at all'')"
    by (simp add: replies_def)
  from resolver_empty_word [of ascii_lower 5 replies lucid_store]
  have eq: "get_new_unique_word ascii_lower 5 replies lucid_store =
       get_new_unique_word ascii_lower 5 (\<lambda>k. empty_as_failure (replies k)) lucid_store"
    by (rule conjunct1)
  have c: "calls (get_new_unique_word ascii_lower 5 replies lucid_store) =
       [Generate, Generate, Exists ''LUCID'', Generate, Generate, Exists ''terse'',
        Save (Some ''terse'') (Some ''brief'') (Some ''a terse reply'')]"
    by (simp add: resolver_replies)
  have s: "content (store (get_new_unique_word ascii_lower 5 replies lucid_store)) =
       [lucid_row, terse_row]"
    by (simp add: resolver_replies)
  from r2 eq c s show ?thesis by (intro conjI)
qed

section \<open>Broadcast\<close>

lemma resolver_users_unchanged:
  "users (store (get_new_unique_word lower now gen d)) = users d"
proof (cases rule: attempts_cases [of 5 lower d gen 0 now "[]"])
  case exhausted
  then show ?thesis by (simp add: get_new_unique_word_def)
next
  case (raised err j)
  then show ?thesis by (simp add: get_new_unique_word_def)
next
  case (saved j w m e)
  then show ?thesis by (simp add: get_new_unique_word_def)
qed

lemma send_to_all_isolated:
  "\<forall>c\<in>set cs. \<forall>x. send c msg \<noteq> RaisesOther x \<Longrightarrow>
     send_to_all send msg cs served out =
       (Inr (), served @ cs, out @ concat (map (\<lambda>c. printed_for c (send c msg)) cs))"
proof (induction cs arbitrary: served out)
  case Nil
  show ?case by simp
next
  case (Cons c cs)
  from Cons.prems have rest: "\<forall>c\<in>set cs. \<forall>x. send c msg \<noteq> RaisesOther x" by simp
  show ?case
  proof (cases "send c msg")
    case Delivered
    with Cons.IH [OF rest] show ?thesis by simp
  next
    case (Raises x)
    with Cons.IH [OF rest] show ?thesis by simp
  next
    case (RaisesOther x)
    with Cons.prems show ?thesis by simp
  qed
qed

text \<open>
  C6. When the resolver has produced a word, \<^verbatim>\<open>send_daily_word\<close> attempts the send to every
  subscribed chat, in the order of the list, whichever of the sends raise a delivery error
  (an exception derived from \<^verbatim>\<open>Exception\<close>): each such error is printed and the loop goes
  on, and \<^verbatim>\<open>send_daily_word\<close> itself returns normally.
\<close>

theorem broadcast_isolates_failures:
  assumes "outcome (get_new_unique_word lower now gen d) = Inr (w, m, e)" and "truthy w"
    and "\<forall>c\<in>set (get_subscribed_users d). \<forall>x.
           send c (WordOfTheDay (format_value w) (format_value m) (format_value e)) \<noteq> RaisesOther x"
  shows "finished (send_daily_word lower now gen send d) = Inr ()
       \<and> attempted (send_daily_word lower now gen send d) = get_subscribed_users d
       \<and> log (send_daily_word lower now gen send d) =
           concat (map (\<lambda>c. printed_for c
             (send c (WordOfTheDay (format_value w) (format_value m) (format_value e))))
             (get_subscribed_users d))"
proof -
  have u: "get_subscribed_users (store (get_new_unique_word lower now gen d)) =
      get_subscribed_users d"
    by (simp add: get_subscribed_users_def resolver_users_unchanged)
  from assms(3) send_to_all_isolated
    [of "get_subscribed_users d" send
      "WordOfTheDay (format_value w) (format_value m) (format_value e)" "[]" "[]"]
  have "send_to_all send (WordOfTheDay (format_value w) (format_value m) (format_value e))
          (get_subscribed_users d) [] [] =
        (Inr (), get_subscribed_users d,
         concat (map (\<lambda>c. printed_for c
             (send c (WordOfTheDay (format_value w) (format_value m) (format_value e))))
             (get_subscribed_users d)))"
    by simp
  with assms(1,2) u show ?thesis
    by (simp add: send_daily_word_def Let_def)
qed

text \<open>C6 at a concrete run: chats 7 and 8 are subscribed and chat 7 has blocked the bot; the
  send to chat 8 is still attempted and one line is printed.\<close>

theorem broadcast_isolates_failures_witness:
  "outcome (get_new_unique_word ascii_lower 5 replies lucid_store) =
       Inr (Some ''terse'', Some ''brief'', Some ''a terse reply'')
   \<and> truthy (Some ''terse'')
   \<and> get_subscribed_users lucid_store = [7, 8]
   \<and> blocked_seven 7 (WordOfTheDay ''terse'' ''brief'' ''a terse reply'') =
       Raises ''Forbidden: bot was blocked by the user''
   \<and> blocked_seven 8 (WordOfTheDay ''terse'' ''brief'' ''a terse reply'') = Delivered
   \<and> finished (send_daily_word ascii_lower 5 replies blocked_seven lucid_store) = Inr ()
   \<and> attempted (send_daily_word ascii_lower 5 replies blocked_seven lucid_store) = [7, 8]
   \<and> log (send_daily_word ascii_lower 5 replies blocked_seven lucid_store) =
       [FailedToSend 7 ''Forbidden: bot was blocked by the user'']"
proof -
  have o: "outcome (get_new_unique_word ascii_lower 5 replies lucid_store) =
       Inr (Some ''terse'', Some ''brief'', Some ''a terse reply'')"
    by (simp add: resolver_replies)
  have t: "truthy (Some ''terse'')" by simp
  have u: "get_subscribed_users lucid_store = [7, 8]"
    by (simp add: get_subscribed_users_def lucid_store_def)
  have b: "\<forall>c\<in>set (get_subscribed_users lucid_store). \<forall>x.
         blocked_seven c (WordOfTheDay (format_value (Some ''terse''))
           (format_value (Some ''brief'')) (format_value (Some ''a terse reply''))) \<noteq>
         RaisesOther x"
    by (simp add: blocked_seven_def)
  from broadcast_isolates_failures [of ascii_lower 5 replies lucid_store "Some ''terse''"
      "Some ''brief''" "Some ''a terse reply''" blocked_seven] o t b u
  show ?thesis
    by (simp add: blocked_seven_def)
qed

end
